theory Spec2Isabelle
  imports Main "HOL-Library.Word" "HOL-Library.Product_Lexorder" "HOL-Library.Sublist"
begin

section \<open>JavaScript strings and the runtime operations the sources use\<close>

text \<open>
  A JavaScript string is a sequence of UTF-16 code units; \<open>length\<close>, indexing,
  \<open>slice\<close> and \<open>indexOf\<close> all count code units. Indices are JavaScript numbers that
  hold integers here, so they are \<open>int\<close>; \<open>null\<close>/\<open>undefined\<close> is \<open>None\<close>.
\<close>

type_synonym code_unit = "16 word"
type_synonym jsstring = "code_unit list"

definition js :: "string \<Rightarrow> jsstring" where
  "js s = map of_char s"

definition SPACE :: code_unit where "SPACE = 0x20"
definition TAB :: code_unit where "TAB = 0x09"
definition NEWLINE :: code_unit where "NEWLINE = 0x0A"
definition CR :: code_unit where "CR = 0x0D"
definition NBSP :: code_unit where "NBSP = 0xA0"

text \<open>The exceptions of the runtime that the modelled code can meet, with their message.\<close>

datatype js_error = SyntaxError jsstring | RangeError jsstring | TypeError jsstring

fun message :: "js_error \<Rightarrow> jsstring" where
  "message (SyntaxError m) = m"
| "message (RangeError m) = m"
| "message (TypeError m) = m"

text \<open>\<open>s.slice(a, b)\<close>: a negative index counts from the end, both are clamped.\<close>

definition js_slice :: "jsstring \<Rightarrow> int \<Rightarrow> int \<Rightarrow> jsstring" where
  "js_slice s a b =
     (let len = int (length s);
          from = (if a < 0 then max (len + a) 0 else min a len);
          to = (if b < 0 then max (len + b) 0 else min b len)
      in take (nat (to - from)) (drop (nat from) s))"

text \<open>\<open>s.slice(a)\<close>: the end defaults to the length.\<close>

definition js_slice_from :: "jsstring \<Rightarrow> int \<Rightarrow> jsstring" where
  "js_slice_from s a = js_slice s a (int (length s))"

text \<open>\<open>s[i] ?? ""\<close>: the one-unit string at \<open>i\<close>, or the empty string out of range.\<close>

definition char_at :: "jsstring \<Rightarrow> int \<Rightarrow> jsstring" where
  "char_at s i = (if 0 \<le> i \<and> i < int (length s) then [s ! nat i] else [])"

text \<open>\<open>xs[i]\<close> on an array: \<open>undefined\<close> (here \<open>None\<close>) out of range.\<close>

definition array_get :: "'a list \<Rightarrow> nat \<Rightarrow> 'a option" where
  "array_get xs i = (if i < length xs then Some (xs ! i) else None)"

section \<open>The range compositor: \<open>renderWithHighlights\<close>\<close>

record HighlightRange =
  hr_start :: int
  hr_end :: int

datatype Segment =
    SText jsstring
  | SFind jsstring bool
  | SError jsstring

fun seg_value :: "Segment \<Rightarrow> jsstring" where
  "seg_value (SText v) = v"
| "seg_value (SFind v c) = v"
| "seg_value (SError v) = v"

fun is_error :: "Segment \<Rightarrow> bool" where
  "is_error (SError v) = True"
| "is_error s = False"

text \<open>The body of the \<open>for (const r of ranges)\<close> loop of \<open>clampRanges\<close>.\<close>

fun clamp_each :: "int \<Rightarrow> HighlightRange list \<Rightarrow> HighlightRange list" where
  "clamp_each textLen [] = []"
| "clamp_each textLen (r # rs) =
     (let start = max 0 (min textLen (hr_start r));
          end = max 0 (min textLen (hr_end r))
      in if end \<le> start then clamp_each textLen rs
         else \<lparr>hr_start = start, hr_end = end\<rparr> # clamp_each textLen rs)"

text \<open>
  \<open>out.sort((a, b) => (a.start - b.start) || (a.end - b.end))\<close>: the stable sort by
  \<open>start\<close>, then \<open>end\<close>.
\<close>

definition clampRanges :: "int \<Rightarrow> HighlightRange list option \<Rightarrow> HighlightRange list" where
  "clampRanges textLen ranges =
     (case ranges of
        None \<Rightarrow> []
      | Some rs \<Rightarrow>
          if rs = [] then []
          else sort_key (\<lambda>r. (hr_start r, hr_end r)) (clamp_each textLen rs))"

record rstate =
  segs :: "Segment list"
  cursor :: int
  errorRendered :: bool

definition pushText :: "jsstring \<Rightarrow> rstate \<Rightarrow> rstate" where
  "pushText s st = (if s = [] then st else st\<lparr>segs := segs st @ [SText s]\<rparr>)"

definition pushErrorChar :: "jsstring \<Rightarrow> rstate \<Rightarrow> rstate" where
  "pushErrorChar ch st =
     (let v = (if ch = [SPACE] then [NBSP] else ch)
      in st\<lparr>segs := segs st @ [SError v]\<rparr>)"

definition pushFind :: "jsstring \<Rightarrow> bool \<Rightarrow> rstate \<Rightarrow> rstate" where
  "pushFind v isCurrent st = st\<lparr>segs := segs st @ [SFind v isCurrent]\<rparr>"

text \<open>
  The test \<open>typeof errorPos === "number" && !errorRendered && errorPos >= lo && errorPos < hi\<close>,
  giving the error position when it holds.
\<close>

definition error_in :: "int option \<Rightarrow> bool \<Rightarrow> int \<Rightarrow> int \<Rightarrow> int option" where
  "error_in errorPos rendered lo hi =
     (case errorPos of
        None \<Rightarrow> None
      | Some e \<Rightarrow> if \<not> rendered \<and> e \<ge> lo \<and> e < hi then Some e else None)"

text \<open>The text before a match, from the cursor to \<open>start\<close> (run when \<open>cursor < start\<close>).\<close>

definition render_gap :: "jsstring \<Rightarrow> int option \<Rightarrow> int \<Rightarrow> rstate \<Rightarrow> rstate" where
  "render_gap text errorPos start st =
     (let st' =
        (case error_in errorPos (errorRendered st) (cursor st) start of
           Some e \<Rightarrow>
             (let st1 = pushText (js_slice text (cursor st) e) st;
                  st2 = pushErrorChar (char_at text e) st1;
                  st3 = st2\<lparr>errorRendered := True, cursor := e + 1\<rparr>
              in if cursor st3 < start then pushText (js_slice text (cursor st3) start) st3
                 else st3)
         | None \<Rightarrow> pushText (js_slice text (cursor st) start) st)
      in st'\<lparr>cursor := start\<rparr>)"

text \<open>The match itself, split around the error position when it falls inside.\<close>

definition render_match ::
  "jsstring \<Rightarrow> int option \<Rightarrow> bool \<Rightarrow> int \<Rightarrow> int \<Rightarrow> rstate \<Rightarrow> rstate" where
  "render_match text errorPos isCurrent start end st =
     (case error_in errorPos (errorRendered st) start end of
        Some e \<Rightarrow>
          (let before = js_slice text start e;
               ch = char_at text e;
               after = js_slice text (e + 1) end;
               st1 = (if before \<noteq> [] then pushFind before isCurrent st else st);
               st2 = pushErrorChar ch st1;
               st3 = st2\<lparr>errorRendered := True\<rparr>;
               st4 = (if after \<noteq> [] then pushFind after isCurrent st3 else st3)
           in st4\<lparr>cursor := end\<rparr>)
      | None \<Rightarrow> (pushFind (js_slice text start end) isCurrent st)\<lparr>cursor := end\<rparr>)"

text \<open>One iteration of the loop over \<open>ranges\<close>, for the range \<open>r = ranges[idx]\<close>.\<close>

definition render_range ::
  "jsstring \<Rightarrow> int option \<Rightarrow> int option \<Rightarrow> nat \<Rightarrow> HighlightRange \<Rightarrow> rstate \<Rightarrow> rstate" where
  "render_range text errorPos activeFindIndex idx r st =
     (let start = hr_start r; end = hr_end r
      in if end \<le> cursor st then st
         else
           (let start = (if start < cursor st then cursor st else start);
                st1 = (if cursor st < start then render_gap text errorPos start st else st)
            in render_match text errorPos (Some (int idx) = activeFindIndex) start end st1))"

text \<open>
  \<open>for (let idx = 0; idx < ranges.length; idx += 1) { let { start, end } = ranges[idx]; ... }\<close>:
  destructuring \<open>undefined\<close> would raise a TypeError.
\<close>

function render_loop ::
  "jsstring \<Rightarrow> int option \<Rightarrow> int option \<Rightarrow> HighlightRange list \<Rightarrow> nat \<Rightarrow> rstate
     \<Rightarrow> js_error + rstate" where
  "render_loop text errorPos activeFindIndex ranges idx st =
     (if idx < length ranges then
        (case array_get ranges idx of
           None \<Rightarrow> Inl (TypeError (js ''Cannot destructure property of undefined''))
         | Some r \<Rightarrow>
             render_loop text errorPos activeFindIndex ranges (idx + 1)
               (render_range text errorPos activeFindIndex idx r st))
      else Inr st)"
  by pat_completeness auto
termination
  by (relation "measure (\<lambda>(text, errorPos, activeFindIndex, ranges, idx, st). length ranges - idx)")
     auto

declare render_loop.simps [simp del]

text \<open>The tail after the last match (run when \<open>cursor < text.length\<close>).\<close>

definition render_tail :: "jsstring \<Rightarrow> int option \<Rightarrow> rstate \<Rightarrow> rstate" where
  "render_tail text errorPos st =
     (case error_in errorPos (errorRendered st) (cursor st) (int (length text)) of
        Some e \<Rightarrow>
          (let st1 = pushText (js_slice text (cursor st) e) st;
               st2 = pushErrorChar (char_at text e) st1;
               st3 = st2\<lparr>errorRendered := True, cursor := e + 1\<rparr>
           in pushText (js_slice_from text (cursor st3)) st3)
      | None \<Rightarrow> pushText (js_slice_from text (cursor st)) st)"

text \<open>
  The result is the sequence of rendered nodes: a text node is \<open>SText\<close>, a
  \<open>ht-highlight\<close> span is \<open>SError\<close>, a \<open>ht-find\<close> span is \<open>SFind\<close>. The parameter
  \<open>highlightPosition\<close> is \<open>None\<close> for \<open>null\<close>, \<open>undefined\<close> and the non-finite numbers.
\<close>

definition renderWithHighlights ::
  "jsstring \<Rightarrow> int option \<Rightarrow> HighlightRange list option \<Rightarrow> int option
     \<Rightarrow> js_error + Segment list" where
  "renderWithHighlights text highlightPosition findRanges activeFindIndex =
     (let ranges = clampRanges (int (length text)) findRanges;
          errorPos = highlightPosition
      in case render_loop text errorPos activeFindIndex ranges 0
                \<lparr>segs = [], cursor = 0, errorRendered = False\<rparr> of
           Inl err \<Rightarrow> Inl err
         | Inr st \<Rightarrow>
             (let st' = (if cursor st < int (length text) then render_tail text errorPos st
                         else st)
              in case (if segs st' = [] then error_in errorPos False 0 (int (length text))
                       else None) of
                   Some e \<Rightarrow>
                     Inr [SText (js_slice text 0 e),
                          SError (if char_at text e = [SPACE] then [NBSP] else char_at text e),
                          SText (js_slice_from text (e + 1))]
                 | None \<Rightarrow>
                     if segs st' = [] then Inr [SText text] else Inr (segs st')))"

section \<open>The match engine: \<open>computeFindMatches\<close>\<close>

record FindOptions =
  query :: jsstring
  matchCase :: bool
  wholeWord :: bool
  regex :: bool

record FindMatch =
  fm_start :: int
  fm_end :: int

record FindResult =
  matches :: "FindMatch list"
  error :: "jsstring option"

text \<open>\<open>/^[A-Za-z0-9_]$/.test(ch)\<close>, for \<open>ch\<close> one code unit or the empty string.\<close>

definition isWordChar :: "jsstring \<Rightarrow> bool" where
  "isWordChar ch =
     (case ch of
        [c] \<Rightarrow> (0x41 \<le> c \<and> c \<le> 0x5A) \<or> (0x61 \<le> c \<and> c \<le> 0x7A) \<or>
               (0x30 \<le> c \<and> c \<le> 0x39) \<or> c = 0x5F
      | _ \<Rightarrow> False)"

definition isWholeWord :: "jsstring \<Rightarrow> int \<Rightarrow> int \<Rightarrow> bool" where
  "isWholeWord text start end =
     (let leftOk = (if start \<le> 0 then True else \<not> isWordChar (char_at text (start - 1)));
          rightOk = (if end \<ge> int (length text) then True else \<not> isWordChar (char_at text end))
      in leftOk \<and> rightOk)"

definition MAX_MATCHES :: nat where
  "MAX_MATCHES = 5000"

subsection \<open>The runtime's string search and regular expressions\<close>

text \<open>
  \<open>StringIndexOf(s, sub, k)\<close> of the language specification: the least position from
  \<open>k\<close> on at which \<open>sub\<close> occurs in \<open>s\<close>, or \<open>-1\<close>.
\<close>

function stringIndexOf :: "jsstring \<Rightarrow> jsstring \<Rightarrow> nat \<Rightarrow> int" where
  "stringIndexOf s sub k =
     (if k + length sub > length s then - 1
      else if take (length sub) (drop k s) = sub then int k
      else stringIndexOf s sub (k + 1))"
  by pat_completeness auto
termination
  by (relation "measure (\<lambda>(s, sub, k). Suc (length s) - k)") auto

declare stringIndexOf.simps [simp del]

text \<open>\<open>s.indexOf(sub, pos)\<close>: the position is clamped into \<open>[0, s.length]\<close> first.\<close>

definition indexOf :: "jsstring \<Rightarrow> jsstring \<Rightarrow> int \<Rightarrow> int" where
  "indexOf s sub pos = stringIndexOf s sub (nat (min (max pos 0) (int (length s))))"

text \<open>
  A compiled pattern is given by its matcher: \<open>rm text i\<close> is the number of code units
  the pattern matches at position \<open>i\<close> of \<open>text\<close>, or \<open>None\<close> when it does not match
  there (a count past the end of the text is cut at the end). What the matcher of a
  given pattern is belongs to the runtime, not to the repository; the search and the
  \<open>lastIndex\<close> protocol of a global pattern (RegExpBuiltinExec) are written out.
\<close>

type_synonym matcher = "jsstring \<Rightarrow> nat \<Rightarrow> nat option"

function regexp_search :: "matcher \<Rightarrow> jsstring \<Rightarrow> nat \<Rightarrow> (nat \<times> nat) option" where
  "regexp_search rm text i =
     (if i > length text then None
      else case rm text i of
             Some n \<Rightarrow> Some (i, min n (length text - i))
           | None \<Rightarrow> regexp_search rm text (i + 1))"
  by pat_completeness auto
termination
  by (relation "measure (\<lambda>(rm, text, i). Suc (length text) - i)") auto

declare regexp_search.simps [simp del]

text \<open>
  \<open>re.exec(text)\<close> with \<open>re.lastIndex = lastIndex\<close>: the result (\<open>None\<close> for \<open>null\<close>,
  else \<open>m.index\<close> and \<open>m[0]\<close>) and the new \<open>re.lastIndex\<close>.
\<close>

definition regexp_exec :: "matcher \<Rightarrow> jsstring \<Rightarrow> nat \<Rightarrow> (nat \<times> jsstring) option \<times> nat" where
  "regexp_exec rm text lastIndex =
     (case regexp_search rm text lastIndex of
        None \<Rightarrow> (None, 0)
      | Some (i, n) \<Rightarrow> (Some (i, take n (drop i text)), i + n))"

text \<open>
  The two runtime functions the engine calls and the repository does not define:
  \<open>String.prototype.toLowerCase\<close>, and the constructor \<open>new RegExp(pattern, flags)\<close>,
  which raises a SyntaxError on an invalid pattern.
\<close>

record js_runtime =
  toLowerCase :: "jsstring \<Rightarrow> jsstring"
  RegExp_new :: "jsstring \<Rightarrow> jsstring \<Rightarrow> js_error + matcher"

subsection \<open>The two scanning loops\<close>

text \<open>
  One iteration of \<open>while ((m = re.exec(text)) !== null) { ... }\<close>, from the state
  \<open>re.lastIndex\<close> and \<open>matches\<close>: the loop goes on (\<open>Continue\<close>, with the new
  \<open>re.lastIndex\<close> and \<open>matches\<close>), or it ends (\<open>Break\<close>, when \<open>exec\<close> gave \<open>null\<close> or a
  \<open>break\<close> was run), with \<open>matches\<close> as they are then.
\<close>

datatype loop_step = Continue nat "FindMatch list" | Break "FindMatch list"

definition regex_step ::
  "matcher \<Rightarrow> jsstring \<Rightarrow> bool \<Rightarrow> nat \<Rightarrow> FindMatch list \<Rightarrow> loop_step" where
  "regex_step re text ww lastIndex ms =
     (case regexp_exec re text lastIndex of
        (None, lastIndex') \<Rightarrow> Break ms
      | (Some (index, val), lastIndex') \<Rightarrow>
          (let start = int index;
               end = start + int (length val)
           in if length val = 0 then
                (if lastIndex' < length text then Continue (lastIndex' + 1) ms
                 else Break ms)
              else if ww \<and> \<not> isWholeWord text start end then
                Continue lastIndex' ms
              else
                (let ms' = ms @ [\<lparr>fm_start = start, fm_end = end\<rparr>]
                 in if length ms' \<ge> MAX_MATCHES then Break ms'
                    else Continue lastIndex' ms')))"

text \<open>The loop: its iterations one after the other; \<open>None\<close> is a loop that never ends.\<close>

partial_function (option) regex_loop ::
  "matcher \<Rightarrow> jsstring \<Rightarrow> bool \<Rightarrow> nat \<Rightarrow> FindMatch list \<Rightarrow> FindMatch list option" where
  "regex_loop re text ww lastIndex ms =
     (case regex_step re text ww lastIndex ms of
        Break ms' \<Rightarrow> Some ms'
      | Continue lastIndex' ms' \<Rightarrow> regex_loop re text ww lastIndex' ms')"

text \<open>\<open>while (true) { const idx = hay.indexOf(needle, i); if (idx === -1) break; ... }\<close>.\<close>

partial_function (option) literal_loop ::
  "jsstring \<Rightarrow> jsstring \<Rightarrow> jsstring \<Rightarrow> bool \<Rightarrow> int \<Rightarrow> FindMatch list
     \<Rightarrow> FindMatch list option" where
  "literal_loop text hay needle ww i ms =
     (let idx = indexOf hay needle i
      in if idx = - 1 then Some ms
         else
           (let start = idx;
                end = idx + int (length needle)
            in if \<not> ww \<or> isWholeWord text start end then
                 (let ms' = ms @ [\<lparr>fm_start = start, fm_end = end\<rparr>]
                  in if length ms' \<ge> MAX_MATCHES then Some ms'
                     else literal_loop text hay needle ww (idx + max (int (length needle)) 1) ms')
               else literal_loop text hay needle ww (idx + max (int (length needle)) 1) ms))"

text \<open>
  The result is \<open>None\<close> when a loop does not end. The \<open>try\<close> block catches the
  constructor's exception; nothing else in it raises.
\<close>

definition computeFindMatches :: "js_runtime \<Rightarrow> jsstring \<Rightarrow> FindOptions \<Rightarrow> FindResult option" where
  "computeFindMatches rt text options =
     (let query = query options
      in if query = [] then Some \<lparr>matches = [], error = None\<rparr>
         else if regex options then
           (let flags = js ''g'' @ (if matchCase options then [] else js ''i'')
            in case RegExp_new rt query flags of
                 Inl e \<Rightarrow>
                   Some \<lparr>matches = [],
                         error = Some (if message e \<noteq> [] then message e
                                       else js ''Invalid regular expression'')\<rparr>
               | Inr re \<Rightarrow>
                   (case regex_loop re text (wholeWord options) 0 [] of
                      None \<Rightarrow> None
                    | Some ms \<Rightarrow> Some \<lparr>matches = ms, error = None\<rparr>))
         else
           (let hay = (if matchCase options then text else toLowerCase rt text);
                needle = (if matchCase options then query else toLowerCase rt query)
            in if needle = [] then Some \<lparr>matches = [], error = None\<rparr>
               else
                 (case literal_loop text hay needle (wholeWord options) 0 [] of
                    None \<Rightarrow> None
                  | Some ms \<Rightarrow> Some \<lparr>matches = ms, error = None\<rparr>)))"

section \<open>The reformatter: \<open>formatJsonBestEffort\<close>\<close>

definition SENTINEL :: code_unit where "SENTINEL = 0x00"
definition QUOTE :: code_unit where "QUOTE = 0x22"
definition BACKSLASH :: code_unit where "BACKSLASH = 0x5C"
definition LBRACE :: code_unit where "LBRACE = 0x7B"
definition RBRACE :: code_unit where "RBRACE = 0x7D"
definition LBRACKET :: code_unit where "LBRACKET = 0x5B"
definition RBRACKET :: code_unit where "RBRACKET = 0x5D"
definition COMMA :: code_unit where "COMMA = 0x2C"
definition COLON :: code_unit where "COLON = 0x3A"

record LineColumn =
  line :: int
  column :: int

record BestEffortFormatResult =
  "output" :: jsstring
  highlight :: "LineColumn option"

text \<open>\<open>s.endsWith(x)\<close>.\<close>

definition endsWith :: "jsstring \<Rightarrow> jsstring \<Rightarrow> bool" where
  "endsWith s x \<longleftrightarrow> length x \<le> length s \<and> drop (length s - length x) s = x"

text \<open>\<open>s.repeat(n)\<close>: a RangeError for a negative count.\<close>

definition js_repeat :: "jsstring \<Rightarrow> int \<Rightarrow> js_error + jsstring" where
  "js_repeat s n =
     (if n < 0 then Inl (RangeError (js ''Invalid count value''))
      else Inr (concat (replicate (nat n) s)))"

text \<open>\<open>s.replace(pat, rep)\<close> for a string pattern: the first occurrence only.\<close>

definition js_replace :: "jsstring \<Rightarrow> jsstring \<Rightarrow> jsstring \<Rightarrow> jsstring" where
  "js_replace s pat rep =
     (let k = indexOf s pat 0
      in if k = - 1 then s else take (nat k) s @ rep @ drop (nat k + length pat) s)"

text \<open>From the repository's \<open>utils\<close>.\<close>

definition ensureFinalNewline :: "jsstring \<Rightarrow> jsstring" where
  "ensureFinalNewline input =
     (if length input = 0 then input
      else if endsWith input [NEWLINE] then input else input @ [NEWLINE])"

function nextNonWhitespaceIndex :: "jsstring \<Rightarrow> nat \<Rightarrow> nat \<Rightarrow> int" where
  "nextNonWhitespaceIndex text i limit =
     (if i < limit then
        (let c = char_at text (int i)
         in if c \<noteq> [SPACE] \<and> c \<noteq> [TAB] \<and> c \<noteq> [NEWLINE] \<and> c \<noteq> [CR] then int i
            else nextNonWhitespaceIndex text (i + 1) limit)
      else - 1)"
  by pat_completeness auto
termination
  by (relation "measure (\<lambda>(text, i, limit). limit - i)") auto

declare nextNonWhitespaceIndex.simps [simp del]

definition offsetToLineColumn :: "jsstring \<Rightarrow> int \<Rightarrow> LineColumn" where
  "offsetToLineColumn text position =
     (let p = max 0 (min position (int (length text)))
      in fold (\<lambda>c lc. if c = NEWLINE then \<lparr>line = line lc + 1, column = 1\<rparr>
                       else lc\<lparr>column := column lc + 1\<rparr>)
           (take (nat p) text) \<lparr>line = 1, column = 1\<rparr>)"

text \<open>The local variables of \<open>formatJsonBestEffort\<close>; \<open>out\<close> is an array of pieces.\<close>

record fstate =
  out :: "jsstring list"
  indent :: int
  inString :: bool
  escaping :: bool
  pendingSpace :: bool
  insertedSentinel :: bool

text \<open>
  \<open>errorPosition\<close> is \<open>None\<close> for \<open>null\<close>, \<open>undefined\<close> and the non-finite numbers.
\<close>

definition maybeInsertSentinel :: "int option \<Rightarrow> nat \<Rightarrow> fstate \<Rightarrow> fstate" where
  "maybeInsertSentinel errorPosition srcIndex st =
     (if insertedSentinel st then st
      else case errorPosition of
             None \<Rightarrow> st
           | Some e \<Rightarrow>
               if int srcIndex \<noteq> e then st
               else st\<lparr>out := out st @ [[SENTINEL]], insertedSentinel := True\<rparr>)"

definition pushIndent :: "fstate \<Rightarrow> js_error + fstate" where
  "pushIndent st =
     (case js_repeat (js ''  '') (max 0 (indent st)) of
        Inl e \<Rightarrow> Inl e
      | Inr s \<Rightarrow> Inr (st\<lparr>out := out st @ [s]\<rparr>))"

text \<open>The pending space, for a character outside strings that is not whitespace.\<close>

definition flushPendingSpace :: "fstate \<Rightarrow> fstate" where
  "flushPendingSpace st =
     (if pendingSpace st then
        (let last = (if out st = [] then [] else last (out st));
             lastIsNewline = endsWith last [NEWLINE];
             st1 = (if \<not> lastIsNewline \<and> length last > 0 then st\<lparr>out := out st @ [[SPACE]]\<rparr>
                    else st)
         in st1\<lparr>pendingSpace := False\<rparr>)
      else st)"

text \<open>
  The body of the loop for the index \<open>i < raw.length\<close>: the value of \<open>i\<close> at the end of
  the body (the empty-container branch moves it) and the new state.
\<close>

definition format_char ::
  "jsstring \<Rightarrow> int option \<Rightarrow> nat \<Rightarrow> fstate \<Rightarrow> js_error + (nat \<times> fstate)" where
  "format_char raw errorPosition i st0 =
     (let st = maybeInsertSentinel errorPosition i st0;
          ch = raw ! i
      in if inString st then
           (let st1 = st\<lparr>out := out st @ [[ch]]\<rparr>
            in if escaping st1 then Inr (i, st1\<lparr>escaping := False\<rparr>)
               else if ch = BACKSLASH then Inr (i, st1\<lparr>escaping := True\<rparr>)
               else if ch = QUOTE then Inr (i, st1\<lparr>inString := False\<rparr>)
               else Inr (i, st1))
         else if ch = SPACE \<or> ch = TAB \<or> ch = NEWLINE \<or> ch = CR then
           Inr (i, st\<lparr>pendingSpace := True\<rparr>)
         else
           (let st1 = flushPendingSpace st
            in if ch = QUOTE then Inr (i, st1\<lparr>inString := True, out := out st1 @ [[ch]]\<rparr>)
               else if ch = LBRACE \<or> ch = LBRACKET then
                 (let close = (if ch = LBRACE then RBRACE else RBRACKET);
                      j = nextNonWhitespaceIndex raw (i + 1) (length raw)
                  in if j \<noteq> - 1 \<and> char_at raw j = [close] then
                       Inr (nat j, st1\<lparr>out := out st1 @ [[ch], [close]]\<rparr>)
                     else
                       (case pushIndent (st1\<lparr>out := out st1 @ [[ch], [NEWLINE]],
                                              indent := indent st1 + 1\<rparr>) of
                          Inl e \<Rightarrow> Inl e
                        | Inr st2 \<Rightarrow> Inr (i, st2)))
               else if ch = RBRACE \<or> ch = RBRACKET then
                 (case pushIndent (st1\<lparr>out := out st1 @ [[NEWLINE]],
                                        indent := max 0 (indent st1 - 1)\<rparr>) of
                    Inl e \<Rightarrow> Inl e
                  | Inr st2 \<Rightarrow> Inr (i, st2\<lparr>out := out st2 @ [[ch]]\<rparr>))
               else if ch = COMMA then
                 (case pushIndent (st1\<lparr>out := out st1 @ [[COMMA], [NEWLINE]]\<rparr>) of
                    Inl e \<Rightarrow> Inl e
                  | Inr st2 \<Rightarrow> Inr (i, st2))
               else if ch = COLON then Inr (i, st1\<lparr>out := out st1 @ [[COLON, SPACE]]\<rparr>)
               else Inr (i, st1\<lparr>out := out st1 @ [[ch]]\<rparr>)))"

lemma nextNonWhitespaceIndex_ge:
  "nextNonWhitespaceIndex text i limit \<noteq> - 1 \<Longrightarrow> int i \<le> nextNonWhitespaceIndex text i limit"
proof (induction "text" i limit rule: nextNonWhitespaceIndex.induct)
  case (1 t i limit)
  then show ?case
    by (subst nextNonWhitespaceIndex.simps, subst (asm) (2) nextNonWhitespaceIndex.simps)
       (auto simp: Let_def split: if_splits)
qed

lemma format_char_index: "format_char raw ep i st = Inr (i', st') \<Longrightarrow> i \<le> i'"
  using nextNonWhitespaceIndex_ge[of raw "i + 1" "length raw"]
  by (auto simp: format_char_def Let_def split: if_splits sum.splits)

text \<open>\<open>for (let i = 0; i < limit; i += 1) { ... }\<close>, from the index \<open>i\<close> on.\<close>

function format_loop :: "jsstring \<Rightarrow> int option \<Rightarrow> nat \<Rightarrow> fstate \<Rightarrow> js_error + fstate" where
  "format_loop raw errorPosition i st =
     (if i < length raw then
        (case format_char raw errorPosition i st of
           Inl e \<Rightarrow> Inl e
         | Inr (i', st') \<Rightarrow> format_loop raw errorPosition (i' + 1) st')
      else Inr st)"
  by pat_completeness auto
termination
proof (relation "measure (\<lambda>(raw, errorPosition, i, st). length raw - i)")
  show "wf (measure (\<lambda>(raw, errorPosition, i, st). length raw - i))" by simp
next
  fix raw :: jsstring and errorPosition i st x2 i' st'
  assume "i < length raw" "format_char raw errorPosition i st = Inr x2" "(i', st') = x2"
  then have "i \<le> i'" using format_char_index[of raw errorPosition i st i' st'] by simp
  with \<open>i < length raw\<close>
  show "((raw, errorPosition, i' + 1, st'), raw, errorPosition, i, st)
          \<in> measure (\<lambda>(raw, errorPosition, i, st). length raw - i)" by simp
qed

declare format_loop.simps [simp del]

definition formatJsonBestEffort ::
  "jsstring \<Rightarrow> int option \<Rightarrow> js_error + BestEffortFormatResult" where
  "formatJsonBestEffort raw errorPosition =
     (case format_loop raw errorPosition 0
             \<lparr>out = [], indent = 0, inString = False, escaping = False,
              pendingSpace = False, insertedSentinel = False\<rparr> of
        Inl e \<Rightarrow> Inl e
      | Inr st \<Rightarrow>
          (let st' = (if \<not> insertedSentinel st \<and> errorPosition = Some (int (length raw))
                      then st\<lparr>out := out st @ [[SENTINEL]], insertedSentinel := True\<rparr>
                      else st);
               withSentinel = concat (out st');
               sentinelIndex = indexOf withSentinel [SENTINEL] 0;
               highlight = (if sentinelIndex \<ge> 0
                            then Some (offsetToLineColumn withSentinel sentinelIndex)
                            else None);
               output = ensureFinalNewline (js_replace withSentinel [SENTINEL] [])
           in Inr \<lparr>output = output, highlight = highlight\<rparr>))"

section \<open>The navigation controller: \<open>gotoFindIndex\<close>\<close>

text \<open>
  \<open>a % b\<close> on integers: the remainder of the truncating division, with the sign of
  \<open>a\<close>. The divisor is \<open>findMatches.length\<close>, positive where the operator is reached.
\<close>

definition js_rem :: "int \<Rightarrow> int \<Rightarrow> int" where
  "js_rem a b = sgn a * (\<bar>a\<bar> mod \<bar>b\<bar>)"

text \<open>
  The state is \<open>activeFindIndex\<close>; each function gives its new value. The selection,
  scroll and focus of the textarea that \<open>gotoFindIndex\<close> also sets are left out.
\<close>

definition gotoFindIndex :: "FindMatch list \<Rightarrow> int \<Rightarrow> int \<Rightarrow> int" where
  "gotoFindIndex findMatches nextIndex activeFindIndex =
     (if length findMatches = 0 then activeFindIndex
      else (let n = int (length findMatches)
            in js_rem (js_rem nextIndex n + n) n))"

definition gotoNextMatch :: "FindMatch list \<Rightarrow> int \<Rightarrow> int" where
  "gotoNextMatch findMatches activeFindIndex =
     (if length findMatches = 0 then activeFindIndex
      else gotoFindIndex findMatches
             (if activeFindIndex < 0 then 0 else activeFindIndex + 1) activeFindIndex)"

definition gotoPrevMatch :: "FindMatch list \<Rightarrow> int \<Rightarrow> int" where
  "gotoPrevMatch findMatches activeFindIndex =
     (if length findMatches = 0 then activeFindIndex
      else gotoFindIndex findMatches
             (if activeFindIndex < 0 then 0 else activeFindIndex - 1) activeFindIndex)"

text \<open>The effect run when \<open>findMatches.length\<close> changes.\<close>

definition syncActiveFindIndex :: "FindMatch list \<Rightarrow> int \<Rightarrow> int" where
  "syncActiveFindIndex findMatches prev =
     (if length findMatches = 0 then - 1
      else if prev \<ge> 0 \<and> prev < int (length findMatches) then prev
      else 0)"

section \<open>Notions used to state and prove the properties\<close>

fun seg_ok :: "jsstring \<Rightarrow> int option \<Rightarrow> Segment \<Rightarrow> bool" where
  "seg_ok text ep (SText v) = sublist v text"
| "seg_ok text ep (SFind v c) = sublist v text"
| "seg_ok text ep (SError v) =
     (case ep of
        None \<Rightarrow> False
      | Some e \<Rightarrow> 0 \<le> e \<and> e < int (length text) \<and>
          v = [if text ! nat e = SPACE then NBSP else text ! nat e])"

definition displayed :: "jsstring \<Rightarrow> int option \<Rightarrow> jsstring" where
  "displayed text errorPos =
     (case errorPos of
        None \<Rightarrow> text
      | Some e \<Rightarrow>
          if 0 \<le> e \<and> e < int (length text) \<and> text ! nat e = SPACE
          then text[nat e := NBSP] else text)"

definition covers :: "jsstring \<Rightarrow> int option \<Rightarrow> Segment list \<Rightarrow> int \<Rightarrow> bool \<Rightarrow> bool" where
  "covers text ep S c r \<longleftrightarrow>
     0 \<le> c \<and> c \<le> int (length text) \<and>
     concat (map seg_value S) = take (nat c) (displayed text ep) \<and>
     length (filter is_error S) = (if r then 1 else 0) \<and>
     list_all (seg_ok text ep) S \<and>
     (r \<longrightarrow> (\<exists>e. ep = Some e \<and> 0 \<le> e \<and> e < c)) \<and>
     (\<not> r \<longrightarrow> (\<forall>e. ep = Some e \<longrightarrow> 0 \<le> e \<longrightarrow> c \<le> e))"

definition rinv :: "jsstring \<Rightarrow> int option \<Rightarrow> rstate \<Rightarrow> bool" where
  "rinv text ep st = covers text ep (segs st) (cursor st) (errorRendered st)"

definition range_ok :: "jsstring \<Rightarrow> HighlightRange \<Rightarrow> bool" where
  "range_ok text r \<longleftrightarrow> 0 \<le> hr_start r \<and> hr_start r < hr_end r \<and> hr_end r \<le> int (length text)"

definition scan_inv :: "FindMatch list \<Rightarrow> int \<Rightarrow> bool" where
  "scan_inv ms c \<longleftrightarrow>
     sorted (map fm_start ms) \<and>
     sorted_wrt (\<lambda>a b. fm_end a \<le> fm_start b) ms \<and>
     list_all (\<lambda>m. 0 \<le> fm_start m \<and> fm_start m < fm_end m \<and> fm_end m \<le> c) ms"

text \<open>
  A fragment of a runtime, for the concrete runs. It knows the pattern \<open>a*\<close> (the
  longest run of \<open>a\<close> at the position, of \<open>a\<close> or \<open>A\<close> under the flag \<open>i\<close>), and
  rejects every other pattern with the message the engines give for \<open>(\<close>; its
  \<open>toLowerCase\<close> folds the ASCII letters.
\<close>

definition star_a_matcher :: "bool \<Rightarrow> matcher" where
  "star_a_matcher ignoreCase text i =
     Some (length (takeWhile (\<lambda>c. c = 0x61 \<or> (ignoreCase \<and> c = 0x41)) (drop i text)))"

definition sample_runtime :: js_runtime where
  "sample_runtime =
     \<lparr>toLowerCase = map (\<lambda>c. if 0x41 \<le> c \<and> c \<le> 0x5A then c + 0x20 else c),
      RegExp_new = (\<lambda>pattern flags.
        if pattern = js ''a*'' then Inr (star_a_matcher (0x69 \<in> set flags))
        else Inl (SyntaxError (js ''Invalid regular expression: /(/: Unterminated group'')))\<rparr>"

section \<open>Properties of the range compositor\<close>

lemma length_displayed [simp]: "length (displayed text ep) = length text"
  by (simp add: displayed_def split: option.splits)

lemma slice_plain:
  "0 \<le> a \<Longrightarrow> a \<le> b \<Longrightarrow> b \<le> int (length s) \<Longrightarrow>
   js_slice s a b = take (nat (b - a)) (drop (nat a) s)"
  by (simp add: js_slice_def Let_def)

lemma take_extend:
  "0 \<le> a \<Longrightarrow> a \<le> b \<Longrightarrow>
   take (nat a) xs @ take (nat (b - a)) (drop (nat a) xs) = take (nat b) xs"
proof -
  assume a: "0 \<le> a" "a \<le> b"
  then have "nat b = nat a + nat (b - a)" by simp
  then show ?thesis by (simp add: take_add)
qed

lemma displayed_window:
  assumes "0 \<le> a" "a \<le> b" "b \<le> int (length text)"
    and "\<forall>e. ep = Some e \<longrightarrow> 0 \<le> e \<longrightarrow> e < a \<or> b \<le> e"
  shows "take (nat (b - a)) (drop (nat a) (displayed text ep)) =
         take (nat (b - a)) (drop (nat a) text)"
proof (rule nth_equalityI)
  show "length (take (nat (b - a)) (drop (nat a) (displayed text ep))) =
        length (take (nat (b - a)) (drop (nat a) text))" by simp
next
  fix i assume "i < length (take (nat (b - a)) (drop (nat a) (displayed text ep)))"
  then have i: "i < nat (b - a)" "nat a + i < length text" by auto
  have "displayed text ep ! (nat a + i) = text ! (nat a + i)"
  proof (cases ep)
    case None then show ?thesis by (simp add: displayed_def)
  next
    case (Some e)
    with assms(4) have "0 \<le> e \<longrightarrow> e < a \<or> b \<le> e" by simp
    with i assms(1,2) have "0 \<le> e \<longrightarrow> nat e \<noteq> nat a + i" by auto
    with Some show ?thesis by (auto simp: displayed_def)
  qed
  with i show "take (nat (b - a)) (drop (nat a) (displayed text ep)) ! i =
        take (nat (b - a)) (drop (nat a) text) ! i" by simp
qed

lemma covers_push:
  assumes c: "covers text ep S a r"
    and ab: "a \<le> b" "b \<le> int (length text)"
    and ne: "error_in ep r a b = None"
    and x: "\<not> is_error X" "seg_value X = js_slice text a b" "seg_ok text ep X"
  shows "covers text ep (S @ [X]) b r"
proof -
  from c have a0: "0 \<le> a" by (simp add: covers_def)
  have away: "\<forall>e. ep = Some e \<longrightarrow> 0 \<le> e \<longrightarrow> e < a \<or> b \<le> e"
    using c ne by (auto simp: covers_def error_in_def split: option.splits if_splits)
  have "js_slice text a b = take (nat (b - a)) (drop (nat a) (displayed text ep))"
    using slice_plain[OF a0 ab] displayed_window[OF a0 ab away] by simp
  then have "concat (map seg_value (S @ [X])) = take (nat b) (displayed text ep)"
    using c x take_extend[OF a0 ab(1)] by (simp add: covers_def)
  moreover have "r \<longrightarrow> (\<exists>e. ep = Some e \<and> 0 \<le> e \<and> e < b)"
    using c ab by (auto simp: covers_def)
  moreover have "\<not> r \<longrightarrow> (\<forall>e. ep = Some e \<longrightarrow> 0 \<le> e \<longrightarrow> b \<le> e)"
    using c ne by (auto simp: covers_def error_in_def split: option.splits if_splits)
  ultimately show ?thesis using c ab a0 x by (simp add: covers_def)
qed

lemma covers_skip:
  assumes c: "covers text ep S a r"
    and ab: "a \<le> b" "b \<le> int (length text)"
    and e: "js_slice text a b = []"
  shows "covers text ep S b r"
proof -
  from c have a0: "0 \<le> a" by (simp add: covers_def)
  from e slice_plain[OF a0 ab] have "a = b" using ab a0 by auto
  with c show ?thesis by simp
qed

lemma sublist_js_slice [simp]: "sublist (js_slice text a b) text"
proof -
  have "sublist (take n (drop m text)) text" for n m
    by (meson sublist_order.order_trans sublist_take sublist_drop)
  then show ?thesis by (simp add: js_slice_def Let_def)
qed

lemma covers_pushText:
  assumes "covers text ep (segs st) a r" "a \<le> b" "b \<le> int (length text)"
    "error_in ep r a b = None"
  shows "covers text ep (segs (pushText (js_slice text a b) st)) b r"
  using covers_skip[OF assms(1-3)] covers_push[OF assms, of "SText (js_slice text a b)"]
  by (simp add: pushText_def)

lemma covers_error:
  assumes c: "covers text ep (segs st) e False"
    and e: "ep = Some e" "e < int (length text)"
  shows "covers text ep (segs (pushErrorChar (char_at text e) st)) (e + 1) True"
proof -
  from c have e0: "0 \<le> e" by (simp add: covers_def)
  let ?v = "if char_at text e = [SPACE] then [NBSP] else char_at text e"
  have v: "?v = [displayed text ep ! nat e]"
    using e e0 by (simp add: char_at_def displayed_def)
  have "take (nat e) (displayed text ep) @ [displayed text ep ! nat e] =
        take (nat (e + 1)) (displayed text ep)"
    using e e0 by (simp add: nat_add_distrib take_Suc_conv_app_nth)
  moreover have "seg_ok text ep (SError ?v)"
    using e e0 by (simp add: char_at_def)
  ultimately show ?thesis using c v e e0
    by (simp add: covers_def pushErrorChar_def Let_def del: seg_ok.simps)
qed

lemma error_in_rendered [simp]: "error_in ep True a b = None"
  by (simp add: error_in_def split: option.splits)

lemma error_in_SomeD:
  "error_in ep r a b = Some e \<Longrightarrow> ep = Some e \<and> \<not> r \<and> a \<le> e \<and> e < b"
  by (auto simp: error_in_def split: option.splits if_splits)

lemma error_in_self [simp]: "error_in ep r a a = None"
  by (auto simp: error_in_def split: option.splits)

lemma error_in_upto: "error_in ep r a b = Some e \<Longrightarrow> error_in ep r a e = None"
  by (auto simp: error_in_def split: option.splits if_splits)

lemma render_gap_inv:
  assumes inv: "rinv text ep st" and lt: "cursor st < start" "start \<le> int (length text)"
  shows "rinv text ep (render_gap text ep start st) \<and> cursor (render_gap text ep start st) = start"
proof (cases "error_in ep (errorRendered st) (cursor st) start")
  case None
  from inv lt None
  have "covers text ep (segs (pushText (js_slice text (cursor st) start) st)) start (errorRendered st)"
    unfolding rinv_def by (intro covers_pushText) auto
  moreover have "errorRendered (pushText (js_slice text (cursor st) start) st) = errorRendered st"
    by (simp add: pushText_def)
  ultimately show ?thesis using None by (simp add: render_gap_def rinv_def)
next
  case (Some e)
  from error_in_SomeD[OF Some] have e: "ep = Some e" "\<not> errorRendered st" "cursor st \<le> e" "e < start"
    by auto
  let ?st1 = "pushText (js_slice text (cursor st) e) st"
  let ?st2 = "pushErrorChar (char_at text e) ?st1"
  let ?st3 = "?st2\<lparr>errorRendered := True, cursor := e + 1\<rparr>"
  have c1: "covers text ep (segs ?st1) e False"
    using inv e lt error_in_upto[OF Some] unfolding rinv_def
    by (intro covers_pushText) auto
  have c2: "covers text ep (segs ?st2) (e + 1) True"
    using covers_error[OF c1 e(1)] e lt by simp
  show ?thesis
  proof (cases "e + 1 < start")
    case True
    have "covers text ep (segs (pushText (js_slice text (e + 1) start) ?st3)) start True"
      using c2 True lt by (intro covers_pushText) auto
    moreover have "errorRendered (pushText (js_slice text (e + 1) start) ?st3) = True"
      by (simp add: pushText_def)
    ultimately show ?thesis using Some True
      by (simp add: render_gap_def rinv_def Let_def)
  next
    case False
    with e have "e + 1 = start" by simp
    with c2 Some False show ?thesis
      by (simp add: render_gap_def rinv_def Let_def)
  qed
qed

lemma covers_pushFind_opt:
  assumes "covers text ep (segs st) a r" "a \<le> b" "b \<le> int (length text)"
    "error_in ep r a b = None"
  shows "covers text ep
           (segs (if js_slice text a b \<noteq> [] then pushFind (js_slice text a b) c st else st)) b r"
  using covers_skip[OF assms(1-3)] covers_push[OF assms, of "SFind (js_slice text a b) c"]
  by (simp add: pushFind_def)

lemma render_match_inv:
  assumes inv: "rinv text ep st" and lt: "cursor st = start" "start < stop" "stop \<le> int (length text)"
  shows "rinv text ep (render_match text ep c start stop st) \<and>
         cursor (render_match text ep c start stop st) = stop"
proof (cases "error_in ep (errorRendered st) start stop")
  case None
  have "covers text ep (segs (pushFind (js_slice text start stop) c st)) stop (errorRendered st)"
    using inv lt None covers_push[of "text" ep "segs st" start "errorRendered st" stop
        "SFind (js_slice text start stop) c"]
    by (simp add: rinv_def pushFind_def)
  then show ?thesis using None by (simp add: render_match_def rinv_def pushFind_def)
next
  case (Some e)
  from error_in_SomeD[OF Some] have e: "ep = Some e" "\<not> errorRendered st" "start \<le> e" "e < stop"
    by auto
  let ?st1 = "if js_slice text start e \<noteq> [] then pushFind (js_slice text start e) c st else st"
  let ?st2 = "pushErrorChar (char_at text e) ?st1"
  let ?st3 = "?st2\<lparr>errorRendered := True\<rparr>"
  let ?st4 = "if js_slice text (e + 1) stop \<noteq> [] then pushFind (js_slice text (e + 1) stop) c ?st3 else ?st3"
  have c1: "covers text ep (segs ?st1) e False"
    using inv e lt error_in_upto[OF Some] unfolding rinv_def
    by (intro covers_pushFind_opt) auto
  have c2: "covers text ep (segs ?st3) (e + 1) True"
    using covers_error[OF c1 e(1)] e lt by simp
  have c4: "covers text ep (segs ?st4) stop True"
    using c2 e lt by (intro covers_pushFind_opt) auto
  have "errorRendered ?st4 = True" by (simp add: pushFind_def)
  with c4 Some show ?thesis
    by (simp add: render_match_def rinv_def Let_def)
qed

lemma render_range_inv:
  assumes inv: "rinv text ep st" and r: "range_ok text r"
  shows "rinv text ep (render_range text ep act idx r st)"
proof (cases "hr_end r \<le> cursor st")
  case True
  with inv show ?thesis by (simp add: render_range_def)
next
  case False
  define start where "start = (if hr_start r < cursor st then cursor st else hr_start r)"
  define st1 where "st1 = (if cursor st < start then render_gap text ep start st else st)"
  have s: "cursor st \<le> start" "start \<le> int (length text)"
    using False r by (auto simp: start_def range_ok_def)
  have "rinv text ep st1 \<and> cursor st1 = start"
    using render_gap_inv[OF inv _ s(2)] s inv by (auto simp: st1_def)
  moreover have "start < hr_end r" using False r by (auto simp: start_def range_ok_def)
  ultimately have "rinv text ep (render_match text ep (Some (int idx) = act) start (hr_end r) st1)"
    using render_match_inv[of "text" ep st1 start "hr_end r"] r False by (auto simp: range_ok_def)
  moreover have "render_range text ep act idx r st =
      render_match text ep (Some (int idx) = act) start (hr_end r) st1"
    unfolding st1_def start_def using False by (simp add: render_range_def Let_def)
  ultimately show ?thesis by simp
qed

lemma render_loop_inv:
  assumes "rinv text ep st" "\<forall>r \<in> set ranges. range_ok text r"
  shows "\<exists>st'. render_loop text ep act ranges idx st = Inr st' \<and> rinv text ep st'"
  using assms
proof (induction "text" ep act ranges idx st rule: render_loop.induct)
  case (1 t ep act ranges idx st)
  show ?case
  proof (cases "idx < length ranges")
    case False
    with "1.prems" show ?thesis by (subst render_loop.simps) simp
  next
    case True
    then have g: "array_get ranges idx = Some (ranges ! idx)" by (simp add: array_get_def)
    from True "1.prems" have "range_ok t (ranges ! idx)" by simp
    with "1.prems" have "rinv t ep (render_range t ep act idx (ranges ! idx) st)"
      by (intro render_range_inv) auto
    from "1.IH"[OF True g this "1.prems"(2)] True g show ?thesis
      by (subst render_loop.simps) simp
  qed
qed

lemma clamp_each_ok: "r \<in> set (clamp_each (int (length text)) rs) \<Longrightarrow> range_ok text r"
  by (induction rs) (auto simp: Let_def range_ok_def split: if_splits)

lemma clampRanges_ok: "r \<in> set (clampRanges (int (length text)) fr) \<Longrightarrow> range_ok text r"
  by (auto simp: clampRanges_def clamp_each_ok split: option.splits if_splits)

lemma rinv_init: "rinv text ep \<lparr>segs = [], cursor = 0, errorRendered = False\<rparr>"
  by (simp add: rinv_def covers_def)

lemma render_tail_inv:
  assumes inv: "rinv text ep st" and lt: "cursor st < int (length text)"
  shows "covers text ep (segs (render_tail text ep st)) (int (length text))
           (errorRendered (render_tail text ep st))"
proof (cases "error_in ep (errorRendered st) (cursor st) (int (length text))")
  case None
  from inv lt None
  have "covers text ep (segs (pushText (js_slice text (cursor st) (int (length text))) st))
          (int (length text)) (errorRendered st)"
    unfolding rinv_def by (intro covers_pushText) auto
  moreover have "errorRendered (pushText (js_slice text (cursor st) (int (length text))) st) = errorRendered st"
    by (simp add: pushText_def)
  ultimately show ?thesis using None by (simp add: render_tail_def js_slice_from_def)
next
  case (Some e)
  from error_in_SomeD[OF Some] have e: "ep = Some e" "\<not> errorRendered st" "cursor st \<le> e"
    "e < int (length text)" by auto
  let ?st1 = "pushText (js_slice text (cursor st) e) st"
  let ?st2 = "pushErrorChar (char_at text e) ?st1"
  let ?st3 = "?st2\<lparr>errorRendered := True, cursor := e + 1\<rparr>"
  have c1: "covers text ep (segs ?st1) e False"
    using inv e error_in_upto[OF Some] unfolding rinv_def
    by (intro covers_pushText) auto
  have c2: "covers text ep (segs ?st3) (e + 1) True"
    using covers_error[OF c1 e(1)] e by simp
  have "covers text ep (segs (pushText (js_slice text (e + 1) (int (length text))) ?st3))
          (int (length text)) True"
    using c2 e by (intro covers_pushText) auto
  moreover have "errorRendered (pushText (js_slice text (e + 1) (int (length text))) ?st3) = True"
    by (simp add: pushText_def)
  ultimately show ?thesis using Some
    by (simp add: render_tail_def js_slice_from_def Let_def)
qed

text \<open>Everything the loop and the tail establish, for the final state.\<close>

lemma render_final:
  "\<exists>st. render_loop text ep act (clampRanges (int (length text)) fr) 0
           \<lparr>segs = [], cursor = 0, errorRendered = False\<rparr> = Inr st \<and>
        covers text ep
          (segs (if cursor st < int (length text) then render_tail text ep st else st))
          (int (length text))
          (errorRendered (if cursor st < int (length text) then render_tail text ep st else st))"
proof -
  obtain st where st: "render_loop text ep act (clampRanges (int (length text)) fr) 0
           \<lparr>segs = [], cursor = 0, errorRendered = False\<rparr> = Inr st" "rinv text ep st"
    using render_loop_inv[OF rinv_init, of "clampRanges (int (length text)) fr" "text" ep act 0]
      clampRanges_ok by blast
  show ?thesis
  proof (cases "cursor st < int (length text)")
    case True
    with render_tail_inv[OF st(2) True] st(1) show ?thesis by auto
  next
    case False
    with st(2) have "cursor st = int (length text)" by (simp add: rinv_def covers_def)
    with st show ?thesis by (auto simp: rinv_def)
  qed
qed

lemma renderWithHighlights_returns:
  "\<exists>nodes. renderWithHighlights text hp fr act = Inr nodes"
proof -
  obtain st where "render_loop text hp act (clampRanges (int (length text)) fr) 0
       \<lparr>segs = [], cursor = 0, errorRendered = False\<rparr> = Inr st"
    using render_final by blast
  then show ?thesis
    by (simp add: renderWithHighlights_def Let_def split: option.splits)
qed

text \<open>
  Claim C1, as amended. Concatenating the text of the nodes \<open>renderWithHighlights\<close>
  emits gives the buffer with one change: when the error offset lies inside the buffer
  and the code unit there is a space, that one unit appears as U+00A0 (this is
  \<open>displayed\<close>). With no error offset, an offset outside the buffer, or another
  character at the offset, the concatenation is the buffer itself. This holds for every
  buffer, error offset, list of ranges and active index, and the call never raises.
\<close>

theorem render_concat_displayed:
  "\<exists>nodes. renderWithHighlights text hp fr act = Inr nodes \<and>
          concat (map seg_value nodes) = displayed text hp"
proof -
  obtain st where st:
    "render_loop text hp act (clampRanges (int (length text)) fr) 0
       \<lparr>segs = [], cursor = 0, errorRendered = False\<rparr> = Inr st"
    "covers text hp
       (segs (if cursor st < int (length text) then render_tail text hp st else st))
       (int (length text))
       (errorRendered (if cursor st < int (length text) then render_tail text hp st else st))"
    using render_final by blast
  define st' where "st' = (if cursor st < int (length text) then render_tail text hp st else st)"
  from st(2) have full: "concat (map seg_value (segs st')) = displayed text hp"
    by (simp add: covers_def st'_def)
  show ?thesis
  proof (cases "segs st' = []")
    case True
    with full have "displayed text hp = []" by simp
    then have "length text = 0" by (metis length_displayed list.size(3))
    then have "error_in hp False 0 (int (length text)) = None"
      and "concat (map seg_value [SText text]) = displayed text hp"
      using \<open>displayed text hp = []\<close> by simp_all
    then show ?thesis using st(1) True
      by (simp add: renderWithHighlights_def Let_def st'_def)
  next
    case False
    then show ?thesis using st(1) full
      by (simp add: renderWithHighlights_def Let_def st'_def)
  qed
qed

text \<open>
  Claim C1 as stated fails: with the buffer \<open>a b\<close> and the error offset 1 (the space)
  the nodes are \<open>a\<close>, an error span holding U+00A0, and \<open>b\<close>; their concatenation is
  not the buffer.
\<close>

theorem render_concat_counterexample:
  "renderWithHighlights (js ''a b'') (Some 1) None None =
     Inr [SText (js ''a''), SError [NBSP], SText (js ''b'')] \<and>
   concat (map seg_value [SText (js ''a''), SError [NBSP], SText (js ''b'')]) \<noteq> js ''a b''"
  by (simp add: renderWithHighlights_def clampRanges_def render_tail_def error_in_def
      pushText_def pushErrorChar_def js_slice_def js_slice_from_def char_at_def js_def
      SPACE_def NBSP_def Let_def render_loop.simps)

text \<open>
  Claim C2. For every buffer and every error offset \<open>e\<close> with \<open>0 \<le> e < length\<close>,
  whatever the ranges (overlapping, unsorted, out of bounds) and the active index, the
  output of \<open>renderWithHighlights\<close> has exactly one node tagged error.
\<close>

theorem render_error_once:
  assumes "0 \<le> e" "e < int (length text)"
  shows "\<exists>nodes. renderWithHighlights text (Some e) fr act = Inr nodes \<and>
          length (filter is_error nodes) = 1"
proof -
  obtain st where st:
    "render_loop text (Some e) act (clampRanges (int (length text)) fr) 0
       \<lparr>segs = [], cursor = 0, errorRendered = False\<rparr> = Inr st"
    "covers text (Some e)
       (segs (if cursor st < int (length text) then render_tail text (Some e) st else st))
       (int (length text))
       (errorRendered (if cursor st < int (length text) then render_tail text (Some e) st else st))"
    using render_final by blast
  define st' where "st' = (if cursor st < int (length text) then render_tail text (Some e) st else st)"
  from st(2) assms have "errorRendered st'" by (auto simp: covers_def st'_def)
  with st(2) have one: "length (filter is_error (segs st')) = 1"
    by (simp add: covers_def st'_def)
  then have "segs st' \<noteq> []" by auto
  with one st(1) show ?thesis
    by (simp add: renderWithHighlights_def Let_def st'_def)
qed

theorem render_error_once_witness:
  "(0::int) \<le> 1 \<and> 1 < int (length (js ''a b'')) \<and>
   (\<exists>nodes. renderWithHighlights (js ''a b'') (Some 1)
        (Some [\<lparr>hr_start = 2, hr_end = 3\<rparr>, \<lparr>hr_start = 0, hr_end = 2\<rparr>,
               \<lparr>hr_start = 1, hr_end = 7\<rparr>]) (Some 0) = Inr nodes \<and>
      length (filter is_error nodes) = 1)"
  using render_error_once[of 1 "js ''a b''"
      "Some [\<lparr>hr_start = 2, hr_end = 3\<rparr>, \<lparr>hr_start = 0, hr_end = 2\<rparr>,
             \<lparr>hr_start = 1, hr_end = 7\<rparr>]" "Some 0"]
  by (simp add: js_def)

text \<open>
  Claim C9, as amended. In the output of \<open>renderWithHighlights\<close>, an error node holds
  the one code unit at the error offset, with a space replaced by U+00A0; the text of a
  match node and of a plain node is a contiguous piece of the buffer, unchanged, so a
  space inside a match stays a space.
\<close>

theorem render_segment_text:
  assumes "renderWithHighlights text hp fr act = Inr nodes" "s \<in> set nodes"
  shows "case s of
           SError v \<Rightarrow> (\<exists>e. hp = Some e \<and> 0 \<le> e \<and> e < int (length text) \<and>
                          v = [if text ! nat e = SPACE then NBSP else text ! nat e])
         | SFind v c \<Rightarrow> sublist v text
         | SText v \<Rightarrow> sublist v text"
proof -
  obtain st where st:
    "render_loop text hp act (clampRanges (int (length text)) fr) 0
       \<lparr>segs = [], cursor = 0, errorRendered = False\<rparr> = Inr st"
    "covers text hp
       (segs (if cursor st < int (length text) then render_tail text hp st else st))
       (int (length text))
       (errorRendered (if cursor st < int (length text) then render_tail text hp st else st))"
    using render_final by blast
  define st' where "st' = (if cursor st < int (length text) then render_tail text hp st else st)"
  from st(2) have ok: "list_all (seg_ok text hp) (segs st')"
    by (simp add: covers_def st'_def)
  have "list_all (seg_ok text hp) nodes"
  proof (cases "segs st' = []")
    case False
    with assms(1) st(1) ok show ?thesis
      by (simp add: renderWithHighlights_def Let_def st'_def)
  next
    case True
    show ?thesis
    proof (cases "error_in hp False 0 (int (length text))")
      case None
      with True assms(1) st(1) show ?thesis
        by (auto simp: renderWithHighlights_def Let_def st'_def)
    next
      case (Some e)
      from error_in_SomeD[OF Some] have "hp = Some e" "0 \<le> e" "e < int (length text)" by auto
      with True Some assms(1) st(1) show ?thesis
        by (auto simp: renderWithHighlights_def Let_def st'_def char_at_def js_slice_from_def)
    qed
  qed
  with assms(2) have "seg_ok text hp s" by (simp add: list_all_iff)
  then show ?thesis by (cases s) (auto split: option.splits)
qed

theorem render_segment_text_witness:
  "renderWithHighlights (js ''a b'') (Some 1) (Some [\<lparr>hr_start = 0, hr_end = 3\<rparr>]) None =
     Inr [SFind (js ''a'') False, SError [NBSP], SFind (js ''b'') False] \<and>
   SError [NBSP] \<in> set [SFind (js ''a'') False, SError [NBSP], SFind (js ''b'') False] \<and>
   (\<exists>e. Some 1 = Some e \<and> 0 \<le> e \<and> e < int (length (js ''a b'')) \<and>
        [NBSP] = [if js ''a b'' ! nat e = SPACE then NBSP else js ''a b'' ! nat e])"
proof -
  have h1: "renderWithHighlights (js ''a b'') (Some 1) (Some [\<lparr>hr_start = 0, hr_end = 3\<rparr>]) None =
     Inr [SFind (js ''a'') False, SError [NBSP], SFind (js ''b'') False]"
    by code_simp
  have h2: "SError [NBSP] \<in> set [SFind (js ''a'') False, SError [NBSP], SFind (js ''b'') False]"
    by simp
  show ?thesis
    using h1 h2 render_segment_text[OF h1 h2] by simp
qed

text \<open>
  Claim C9 as stated fails for match nodes: with the buffer \<open>a b\<close>, one range over the
  whole buffer and no error offset, the single match node carries the buffer with its
  literal space.
\<close>

theorem render_match_space_counterexample:
  "renderWithHighlights (js ''a b'') None (Some [\<lparr>hr_start = 0, hr_end = 3\<rparr>]) None =
     Inr [SFind (js ''a b'') False] \<and>
   SPACE \<in> set (js ''a b'')"
  by (simp add: renderWithHighlights_def clampRanges_def render_tail_def error_in_def
      render_range_def render_match_def render_gap_def array_get_def pushFind_def
      pushText_def pushErrorChar_def js_slice_def js_slice_from_def char_at_def js_def
      SPACE_def NBSP_def Let_def render_loop.simps)

section \<open>Properties of the match engine\<close>

lemma scan_inv_Nil [simp]: "scan_inv [] c"
  by (simp add: scan_inv_def)

lemma scan_inv_mono: "scan_inv ms c \<Longrightarrow> c \<le> d \<Longrightarrow> scan_inv ms d"
  by (auto simp: scan_inv_def list_all_iff)

lemma scan_inv_snoc:
  assumes "scan_inv ms c" "0 \<le> c" "c \<le> a" "a < b"
  shows "scan_inv (ms @ [\<lparr>fm_start = a, fm_end = b\<rparr>]) b"
  using assms
  by (fastforce simp: scan_inv_def list_all_iff sorted_append sorted_wrt_append)

lemma stringIndexOf_bounds:
  "stringIndexOf s sub k \<noteq> - 1 \<Longrightarrow>
   int k \<le> stringIndexOf s sub k \<and> stringIndexOf s sub k + int (length sub) \<le> int (length s)"
proof (induction s sub k rule: stringIndexOf.induct)
  case (1 s sub k)
  show ?case
  proof (cases "k + length sub > length s")
    case True
    with "1.prems" show ?thesis by (simp add: stringIndexOf.simps[of s sub k])
  next
    case False
    show ?thesis
    proof (cases "take (length sub) (drop k s) = sub")
      case True
      with False show ?thesis by (simp add: stringIndexOf.simps[of s sub k])
    next
      case neq: False
      with False "1.prems" have "stringIndexOf s sub (k + 1) \<noteq> - 1"
        by (simp add: stringIndexOf.simps[of s sub k])
      from "1.IH"[OF False neq this] False neq show ?thesis
        by (simp add: stringIndexOf.simps[of s sub k])
    qed
  qed
qed

lemma indexOf_bounds:
  assumes "needle \<noteq> []" "0 \<le> i" "indexOf hay needle i \<noteq> - 1"
  shows "i \<le> indexOf hay needle i \<and>
         indexOf hay needle i + int (length needle) \<le> int (length hay)"
proof -
  let ?k = "nat (min (max i 0) (int (length hay)))"
  from stringIndexOf_bounds[of hay needle ?k] assms(3)
  have b: "int ?k \<le> indexOf hay needle i"
    "indexOf hay needle i + int (length needle) \<le> int (length hay)"
    by (simp_all add: indexOf_def)
  from assms(1) have "0 < int (length needle)" by simp
  with b assms(2) show ?thesis by linarith
qed

lemma literal_loop_total:
  assumes "needle \<noteq> []" "0 \<le> i" "scan_inv ms i"
  shows "\<exists>r. literal_loop text hay needle ww i ms = Some r \<and>
             scan_inv r (max i (int (length hay)))"
  using assms(2,3)
proof (induction "nat (int (length hay) - i)" arbitrary: i ms rule: less_induct)
  case less
  let ?idx = "indexOf hay needle i"
  let ?e = "?idx + int (length needle)"
  show ?case
  proof (cases "?idx = - 1")
    case True
    with less.prems show ?thesis
      by (subst literal_loop.simps) (auto elim: scan_inv_mono)
  next
    case False
    from indexOf_bounds[OF assms(1) less.prems(1) False]
    have b: "i \<le> ?idx" "?e \<le> int (length hay)" by auto
    from assms(1) have n: "0 < int (length needle)" by simp
    then have "1 \<le> int (length needle)" by linarith
    then have step: "?idx + max (int (length needle)) 1 = ?e" by (simp add: max_def)
    have dec: "nat (int (length hay) - ?e) < nat (int (length hay) - i)"
      using b n by linarith
    have e0: "0 \<le> ?e" using b less.prems(1) n by linarith
    have mx: "max ?e (int (length hay)) = max i (int (length hay))"
      using b n less.prems(1) by linarith
    have keep: "scan_inv ms ?e"
      using b n by (intro scan_inv_mono[OF less.prems(2)]) linarith
    have add: "scan_inv (ms @ [\<lparr>fm_start = ?idx, fm_end = ?e\<rparr>]) ?e"
      using b n by (intro scan_inv_snoc[OF less.prems(2) less.prems(1)]) linarith+
    from less.hyps[OF dec e0 keep] mx
    obtain r1 where r1: "literal_loop text hay needle ww ?e ms = Some r1"
      "scan_inv r1 (max i (int (length hay)))" by auto
    from less.hyps[OF dec e0 add] mx
    obtain r2 where r2:
      "literal_loop text hay needle ww ?e (ms @ [\<lparr>fm_start = ?idx, fm_end = ?e\<rparr>]) = Some r2"
      "scan_inv r2 (max i (int (length hay)))" by auto
    have stop: "scan_inv (ms @ [\<lparr>fm_start = ?idx, fm_end = ?e\<rparr>]) (max i (int (length hay)))"
      using b by (intro scan_inv_mono[OF add]) linarith
    show ?thesis
      using False r1 r2 stop step
      by (subst literal_loop.simps) (auto simp: Let_def)
  qed
qed

lemma regexp_search_bounds:
  "regexp_search rm text i = Some (j, n) \<Longrightarrow> i \<le> j \<and> j + n \<le> length text"
proof (induction rm "text" i rule: regexp_search.induct)
  case (1 rm t i)
  show ?case
  proof (cases "i > length t")
    case True
    with "1.prems" show ?thesis by (simp add: regexp_search.simps[of rm t i])
  next
    case False
    show ?thesis
    proof (cases "rm t i")
      case None
      with False "1.prems" have "regexp_search rm t (i + 1) = Some (j, n)"
        by (simp add: regexp_search.simps[of rm t i])
      from "1.IH"[OF False None this] show ?thesis by simp
    next
      case (Some k)
      with False "1.prems" show ?thesis
        by (auto simp: regexp_search.simps[of rm t i])
    qed
  qed
qed

lemma regexp_exec_null:
  "regexp_exec rm text li = (None, li') \<longleftrightarrow> regexp_search rm text li = None \<and> li' = 0"
  by (auto simp: regexp_exec_def split: option.splits)

lemma regexp_exec_bounds:
  assumes "regexp_exec rm text li = (Some (j, v), li')"
  shows "li \<le> j \<and> li' = j + length v \<and> li' \<le> length text"
proof -
  from assms obtain n where s: "regexp_search rm text li = Some (j, n)"
    and v: "v = take n (drop j text)" and l: "li' = j + n"
    by (auto simp: regexp_exec_def split: option.splits)
  from regexp_search_bounds[OF s] v l show ?thesis by auto
qed

lemma regex_loop_total:
  assumes "scan_inv ms (int li)"
  shows "\<exists>r. regex_loop rm text ww li ms = Some r \<and> scan_inv r (max (int li) (int (length text)))"
  using assms
proof (induction "Suc (length text) - li" arbitrary: li ms rule: less_induct)
  case less
  obtain res li' where ex: "regexp_exec rm text li = (res, li')" by fastforce
  show ?case
  proof (cases res)
    case None
    with ex less.prems show ?thesis
      by (subst regex_loop.simps) (auto simp: regex_step_def elim: scan_inv_mono)
  next
    case (Some m)
    obtain j v where m: "m = (j, v)" by fastforce
    from regexp_exec_bounds[of rm "text" li j v li'] ex Some m
    have b: "li \<le> j" "li' = j + length v" "li' \<le> length text" by auto
    have mx: "max (int li) (int (length text)) = int (length text)" using b by linarith
    show ?thesis
    proof (cases "length v = 0")
      case True
      show ?thesis
      proof (cases "li' < length text")
        case False
        with ex Some m True less.prems b show ?thesis
          by (subst regex_loop.simps) (auto simp: regex_step_def elim: scan_inv_mono)
      next
        case lt: True
        have dec: "Suc (length text) - (li' + 1) < Suc (length text) - li" using b lt by linarith
        have "scan_inv ms (int (li' + 1))"
          using b by (intro scan_inv_mono[OF less.prems]) linarith
        from less.hyps[OF dec this] lt
        obtain r where "regex_loop rm text ww (li' + 1) ms = Some r" "scan_inv r (int (length text))"
          by (auto simp: max_def)
        with ex Some m True lt mx show ?thesis
          by (subst regex_loop.simps) (simp add: regex_step_def)
      qed
    next
      case False
      then have pos: "0 < length v" by simp
      have dec: "Suc (length text) - li' < Suc (length text) - li" using b pos by linarith
      have keep: "scan_inv ms (int li')"
        using b by (intro scan_inv_mono[OF less.prems]) linarith
      have add: "scan_inv (ms @ [\<lparr>fm_start = int j, fm_end = int j + int (length v)\<rparr>]) (int li')"
        using scan_inv_snoc[of ms "int li" "int j" "int j + int (length v)"] less.prems b pos
        by simp
      from less.hyps[OF dec keep] b
      obtain r1 where r1: "regex_loop rm text ww li' ms = Some r1" "scan_inv r1 (int (length text))"
        by (auto simp: max_def)
      from less.hyps[OF dec add] b
      obtain r2 where r2:
        "regex_loop rm text ww li' (ms @ [\<lparr>fm_start = int j, fm_end = int j + int (length v)\<rparr>]) = Some r2"
        "scan_inv r2 (int (length text))"
        by (auto simp: max_def)
      have stop: "scan_inv (ms @ [\<lparr>fm_start = int j, fm_end = int j + int (length v)\<rparr>]) (int (length text))"
        using b by (intro scan_inv_mono[OF add]) linarith
      show ?thesis
        using ex Some m False r1 r2 stop mx
        by (subst regex_loop.simps) (auto simp: regex_step_def Let_def)
    qed
  qed
qed

lemma computeFindMatches_scan:
  "\<exists>r c. computeFindMatches rt text opts = Some r \<and> scan_inv (matches r) c"
proof (cases "query opts = []")
  case True
  then show ?thesis by (auto simp: computeFindMatches_def intro: exI[of _ 0])
next
  case q: False
  show ?thesis
  proof (cases "regex opts")
    case True
    show ?thesis
    proof (cases "RegExp_new rt (query opts) (js ''g'' @ (if matchCase opts then [] else js ''i''))")
      case (Inl e)
      with q True show ?thesis
        by (auto simp: computeFindMatches_def Let_def intro: exI[of _ 0])
    next
      case (Inr re)
      from regex_loop_total[of "[]" 0 re "text" "wholeWord opts"]
      obtain r where "regex_loop re text (wholeWord opts) 0 [] = Some r"
        "scan_inv r (max (int 0) (int (length text)))" by auto
      with q True Inr show ?thesis by (auto simp: computeFindMatches_def Let_def)
    qed
  next
    case False
    define hay where "hay = (if matchCase opts then text else toLowerCase rt text)"
    define needle where "needle = (if matchCase opts then query opts else toLowerCase rt (query opts))"
    show ?thesis
    proof (cases "needle = []")
      case True
      with q False show ?thesis
        by (auto simp: computeFindMatches_def Let_def needle_def intro: exI[of _ 0])
    next
      case ne: False
      from literal_loop_total[OF ne, of 0 "[]" "text" hay "wholeWord opts"]
      obtain r where "literal_loop text hay needle (wholeWord opts) 0 [] = Some r"
        "scan_inv r (max 0 (int (length hay)))" by auto
      with q False ne show ?thesis
        by (auto simp: computeFindMatches_def Let_def needle_def hay_def)
    qed
  qed
qed

text \<open>
  Claim C3. For every buffer, every options record and every runtime,
  \<open>computeFindMatches\<close> returns, and the starts of the matches it returns ascend and
  each match ends at or before the start of every later one, so the ranges are pairwise
  non-overlapping. (An invalid pattern gives the empty list.)
\<close>

theorem computeFindMatches_sorted_disjoint:
  "\<exists>r. computeFindMatches rt text opts = Some r \<and>
        sorted (map fm_start (matches r)) \<and>
        sorted_wrt (\<lambda>a b. fm_end a \<le> fm_start b) (matches r)"
  using computeFindMatches_scan[of rt "text" opts] by (auto simp: scan_inv_def)

theorem computeFindMatches_sorted_disjoint_witness:
  "computeFindMatches sample_runtime (js ''a cat Catalog cat'')
     \<lparr>query = js ''CAT'', matchCase = False, wholeWord = True, regex = False\<rparr> =
     Some \<lparr>matches = [\<lparr>fm_start = 2, fm_end = 5\<rparr>, \<lparr>fm_start = 14, fm_end = 17\<rparr>],
           error = None\<rparr> \<and>
   sorted (map fm_start [\<lparr>fm_start = 2, fm_end = 5\<rparr>, \<lparr>fm_start = 14, fm_end = 17\<rparr>]) \<and>
   sorted_wrt (\<lambda>a b. fm_end a \<le> fm_start b)
     [\<lparr>fm_start = 2, fm_end = 5\<rparr>, \<lparr>fm_start = 14, fm_end = 17\<rparr>]"
proof -
  have run: "computeFindMatches sample_runtime (js ''a cat Catalog cat'')
     \<lparr>query = js ''CAT'', matchCase = False, wholeWord = True, regex = False\<rparr> =
     Some \<lparr>matches = [\<lparr>fm_start = 2, fm_end = 5\<rparr>, \<lparr>fm_start = 14, fm_end = 17\<rparr>],
           error = None\<rparr>"
    by (simp add: computeFindMatches_def sample_runtime_def literal_loop.simps indexOf_def
        stringIndexOf.simps isWholeWord_def isWordChar_def char_at_def js_def MAX_MATCHES_def
        Let_def)
  show ?thesis
    using run computeFindMatches_sorted_disjoint[of sample_runtime "js ''a cat Catalog cat''"
        "\<lparr>query = js ''CAT'', matchCase = False, wholeWord = True, regex = False\<rparr>"]
    by simp
qed

lemma star_a_at_bbb: "star_a_matcher ic (js ''bbb'') p = Some 0"
proof -
  have "takeWhile (\<lambda>c. c = 0x61 \<or> (ic \<and> c = 0x41)) (drop p (js ''bbb'')) = []"
  proof (cases "drop p (js ''bbb'')")
    case Nil
    then show ?thesis by simp
  next
    case (Cons c cs)
    then have "c \<in> set (drop p (js ''bbb''))" by simp
    then have "c \<in> set (js ''bbb'')" by (rule in_set_dropD)
    then have "c = 0x62" by (simp add: js_def)
    with Cons show ?thesis by simp
  qed
  then show ?thesis by (simp add: star_a_matcher_def)
qed

lemma length_bbb: "length (js ''bbb'') = 3"
  by (simp add: js_def)

lemma star_a_exec_bbb:
  "p \<le> 3 \<Longrightarrow> regexp_exec (star_a_matcher ic) (js ''bbb'') p = (Some (p, []), p)"
  using star_a_at_bbb[of ic p]
  by (simp add: regexp_exec_def regexp_search.simps[of "star_a_matcher ic" "js ''bbb''" p]
      length_bbb)

lemma star_a_step_bbb:
  "p < 3 \<Longrightarrow> regex_step (star_a_matcher ic) (js ''bbb'') ww p ms = Continue (p + 1) ms"
  by (simp add: regex_step_def star_a_exec_bbb length_bbb)

lemma star_a_last_bbb:
  "regex_step (star_a_matcher ic) (js ''bbb'') ww 3 ms = Break ms"
  by (simp add: regex_step_def star_a_exec_bbb length_bbb)

lemma star_a_loop_bbb:
  "regex_loop (star_a_matcher ic) (js ''bbb'') ww 0 ms = Some ms"
proof -
  let ?step = "regex_step (star_a_matcher ic) (js ''bbb'') ww"
  let ?loop = "regex_loop (star_a_matcher ic) (js ''bbb'') ww"
  have s0: "?step 0 ms = Continue 1 ms" using star_a_step_bbb[of 0 ic ww ms] by simp
  have s1: "?step 1 ms = Continue 2 ms" using star_a_step_bbb[of 1 ic ww ms] by simp
  have s2: "?step 2 ms = Continue 3 ms" using star_a_step_bbb[of 2 ic ww ms] by simp
  have s3: "?step 3 ms = Break ms" by (rule star_a_last_bbb)
  have "?loop 0 ms = ?loop 1 ms"
    by (subst regex_loop.simps) (simp only: s0 loop_step.case)
  also have "\<dots> = ?loop 2 ms"
    by (subst regex_loop.simps) (simp only: s1 loop_step.case)
  also have "\<dots> = ?loop 3 ms"
    by (subst regex_loop.simps) (simp only: s2 loop_step.case)
  also have "\<dots> = Some ms"
    by (subst regex_loop.simps) (simp only: s3 loop_step.case)
  finally show ?thesis .
qed

text \<open>
  Claim C4, as amended. With \<open>regex = true\<close> and the query \<open>a*\<close> on the buffer \<open>bbb\<close>
  (for either setting of \<open>matchCase\<close> and \<open>wholeWord\<close>, in a runtime that compiles
  \<open>a*\<close> to the run of \<open>a\<close>), \<open>computeFindMatches\<close> returns, with no match and no error.
  The pattern matches the empty string at the positions 0, 1, 2 and 3. The iteration of
  the loop at \<open>lastIndex = p\<close>, for \<open>p\<close> = 0, 1, 2, goes on with \<open>lastIndex = p + 1\<close> and
  the matches unchanged: the zero-length match is skipped, not recorded, and moves the
  scan by one code unit. The iteration at \<open>lastIndex = 3\<close>, the end of the buffer, ends
  the loop, with the matches unchanged.
\<close>

theorem zero_length_regex_skipped:
  assumes "RegExp_new rt (js ''a*'') (js ''g'' @ (if mc then [] else js ''i'')) =
             Inr (star_a_matcher (\<not> mc))"
  shows "computeFindMatches rt (js ''bbb'')
           \<lparr>query = js ''a*'', matchCase = mc, wholeWord = ww, regex = True\<rparr> =
           Some \<lparr>matches = [], error = None\<rparr> \<and>
         regexp_exec (star_a_matcher (\<not> mc)) (js ''bbb'') 0 = (Some (0, []), 0) \<and>
         regexp_exec (star_a_matcher (\<not> mc)) (js ''bbb'') 1 = (Some (1, []), 1) \<and>
         regexp_exec (star_a_matcher (\<not> mc)) (js ''bbb'') 2 = (Some (2, []), 2) \<and>
         regexp_exec (star_a_matcher (\<not> mc)) (js ''bbb'') 3 = (Some (3, []), 3) \<and>
         regex_step (star_a_matcher (\<not> mc)) (js ''bbb'') ww 0 ms = Continue 1 ms \<and>
         regex_step (star_a_matcher (\<not> mc)) (js ''bbb'') ww 1 ms = Continue 2 ms \<and>
         regex_step (star_a_matcher (\<not> mc)) (js ''bbb'') ww 2 ms = Continue 3 ms \<and>
         regex_step (star_a_matcher (\<not> mc)) (js ''bbb'') ww 3 ms = Break ms \<and>
         regex_loop (star_a_matcher (\<not> mc)) (js ''bbb'') ww 0 ms = Some ms"
proof -
  have "computeFindMatches rt (js ''bbb'')
           \<lparr>query = js ''a*'', matchCase = mc, wholeWord = ww, regex = True\<rparr> =
           Some \<lparr>matches = [], error = None\<rparr>"
    using assms star_a_loop_bbb[of "\<not> mc" ww "[]"]
    by (simp add: computeFindMatches_def Let_def js_def)
  moreover have "regexp_exec (star_a_matcher (\<not> mc)) (js ''bbb'') 0 = (Some (0, []), 0)"
    "regexp_exec (star_a_matcher (\<not> mc)) (js ''bbb'') 1 = (Some (1, []), 1)"
    "regexp_exec (star_a_matcher (\<not> mc)) (js ''bbb'') 2 = (Some (2, []), 2)"
    "regexp_exec (star_a_matcher (\<not> mc)) (js ''bbb'') 3 = (Some (3, []), 3)"
    by (simp_all add: star_a_exec_bbb)
  moreover have "regex_step (star_a_matcher (\<not> mc)) (js ''bbb'') ww 0 ms = Continue 1 ms"
    "regex_step (star_a_matcher (\<not> mc)) (js ''bbb'') ww 1 ms = Continue 2 ms"
    "regex_step (star_a_matcher (\<not> mc)) (js ''bbb'') ww 2 ms = Continue 3 ms"
    using star_a_step_bbb[of 0 "\<not> mc" ww ms] star_a_step_bbb[of 1 "\<not> mc" ww ms]
      star_a_step_bbb[of 2 "\<not> mc" ww ms]
    by simp_all
  ultimately show ?thesis
    using star_a_last_bbb[of "\<not> mc" ww ms] star_a_loop_bbb[of "\<not> mc" ww ms]
    by (intro conjI) assumption+
qed

theorem zero_length_regex_skipped_witness:
  "RegExp_new sample_runtime (js ''a*'') (js ''g'') = Inr (star_a_matcher False) \<and>
   computeFindMatches sample_runtime (js ''bbb'')
     \<lparr>query = js ''a*'', matchCase = True, wholeWord = False, regex = True\<rparr> =
     Some \<lparr>matches = [], error = None\<rparr> \<and>
   regexp_exec (star_a_matcher False) (js ''bbb'') 2 = (Some (2, []), 2) \<and>
   regex_step (star_a_matcher False) (js ''bbb'') False 0 [] = Continue 1 [] \<and>
   regex_step (star_a_matcher False) (js ''bbb'') False 1 [] = Continue 2 [] \<and>
   regex_step (star_a_matcher False) (js ''bbb'') False 2 [] = Continue 3 [] \<and>
   regex_step (star_a_matcher False) (js ''bbb'') False 3 [] = Break []"
proof -
  have h: "RegExp_new sample_runtime (js ''a*'') (js ''g'' @ (if True then [] else js ''i'')) =
             Inr (star_a_matcher (\<not> True))"
    by (simp add: sample_runtime_def js_def)
  show ?thesis
    using h zero_length_regex_skipped[OF h, of False "[]"] by simp
qed

text \<open>
  Claim C4 as stated fails: the result holds no zero-length match position. Under the
  flags \<open>gi\<close> too, the match list for \<open>a*\<close> on \<open>bbb\<close> is empty.
\<close>

theorem zero_length_regex_counterexample:
  "computeFindMatches sample_runtime (js ''bbb'')
     \<lparr>query = js ''a*'', matchCase = False, wholeWord = False, regex = True\<rparr> =
     Some \<lparr>matches = [], error = None\<rparr>"
  using star_a_loop_bbb[of True False "[]"]
  by (simp add: computeFindMatches_def Let_def sample_runtime_def js_def)

text \<open>
  Claim C6. With \<open>regex = true\<close> and a query the runtime rejects as a pattern (the
  constructor raises; such a query is not empty, the empty pattern being valid),
  \<open>computeFindMatches\<close> returns, for every buffer, the empty match list together with an
  error string that is not empty: no match is returned beside the error.
\<close>

theorem invalid_regex_error:
  assumes "regex opts" "query opts \<noteq> []"
    "RegExp_new rt (query opts) (js ''g'' @ (if matchCase opts then [] else js ''i'')) = Inl e"
  shows "\<exists>msg. computeFindMatches rt text opts = Some \<lparr>matches = [], error = Some msg\<rparr> \<and> msg \<noteq> []"
  using assms by (simp add: computeFindMatches_def Let_def js_def)

theorem invalid_regex_error_witness:
  "regex \<lparr>query = js ''('', matchCase = False, wholeWord = False, regex = True\<rparr> \<and>
   query \<lparr>query = js ''('', matchCase = False, wholeWord = False, regex = True\<rparr> \<noteq> [] \<and>
   RegExp_new sample_runtime (js ''('') (js ''gi'') =
     Inl (SyntaxError (js ''Invalid regular expression: /(/: Unterminated group'')) \<and>
   computeFindMatches sample_runtime (js ''a(b'')
       \<lparr>query = js ''('', matchCase = False, wholeWord = False, regex = True\<rparr> =
     Some \<lparr>matches = [], error = Some (js ''Invalid regular expression: /(/: Unterminated group'')\<rparr>"
  using invalid_regex_error[of "\<lparr>query = js ''('', matchCase = False, wholeWord = False, regex = True\<rparr>"
      sample_runtime "SyntaxError (js ''Invalid regular expression: /(/: Unterminated group'')" "js ''a(b''"]
  by (simp add: sample_runtime_def js_def computeFindMatches_def)

section \<open>Properties of the reformatter\<close>

lemma pushIndent_eq:
  "pushIndent st = Inr (st\<lparr>out := out st @ [concat (replicate (nat (max 0 (indent st))) (js ''  ''))]\<rparr>)"
  by (simp add: pushIndent_def js_repeat_def)

lemma if_returns:
  "(\<exists>r. a = Inr r) \<Longrightarrow> (\<exists>r. b = Inr r) \<Longrightarrow> \<exists>r. (if c then a else b) = Inr r"
  by simp

lemma format_char_returns: "\<exists>r. format_char raw ep i st = Inr r"
  unfolding format_char_def Let_def pushIndent_eq sum.case
  by (intro if_returns exI) (rule refl)+

lemma format_loop_returns: "\<exists>st'. format_loop raw ep i st = Inr st'"
proof (induction raw ep i st rule: format_loop.induct)
  case (1 raw ep i st)
  show ?case
  proof (cases "i < length raw")
    case False
    then show ?thesis by (subst format_loop.simps) simp
  next
    case True
    obtain i' st' where r: "format_char raw ep i st = Inr (i', st')"
      using format_char_returns[of raw ep i st] by fastforce
    from "1.IH"[OF True r refl] True r show ?thesis
      by (subst format_loop.simps) simp
  qed
qed

lemma formatJsonBestEffort_returns: "\<exists>res. formatJsonBestEffort raw ep = Inr res"
proof -
  obtain st where "format_loop raw ep 0
             \<lparr>out = [], indent = 0, inString = False, escaping = False,
              pendingSpace = False, insertedSentinel = False\<rparr> = Inr st"
    using format_loop_returns by blast
  then show ?thesis by (simp add: formatJsonBestEffort_def Let_def)
qed

text \<open>
  Claim C5, as amended. Reformatting \<open>{"a":1}\<close> with the error position 7, the end of
  the input, returns the output \<open>{\<close>, newline, two spaces, \<open>"a": 1\<close>, newline, \<open>}\<close>, newline,
  together with the highlight at line 3, column 2: the sentinel is appended after the
  closing brace, so the position is the one past the brace on its line.
\<close>

theorem reformat_end_offset:
  "formatJsonBestEffort (js ''{\"a\":1}'') (Some 7) =
     Inr \<lparr>output = js ''{\<newline>  \"a\": 1\<newline>}\<newline>'',
          highlight = Some \<lparr>line = 3, column = 2\<rparr>\<rparr>"
  by code_simp

text \<open>Claim C5 as stated fails: the result is not the one with column 1.\<close>

theorem reformat_end_offset_counterexample:
  "formatJsonBestEffort (js ''{\"a\":1}'') (Some 7) \<noteq>
     Inr \<lparr>output = js ''{\<newline>  \"a\": 1\<newline>}\<newline>'',
          highlight = Some \<lparr>line = 3, column = 1\<rparr>\<rparr>"
  by code_simp

text \<open>
  Claim C10. There are inputs with an error position inside the input for which the
  reformatter gives no highlight: for \<open>{  }\<close> with the error position 1, inside the
  whitespace of the empty pair, the result is the output \<open>{}\<close> and newline, with the
  highlight absent.
\<close>

theorem reformat_no_highlight_in_empty_container:
  "(0::int) \<le> 1 \<and> 1 < int (length (js ''{  }'')) \<and>
   formatJsonBestEffort (js ''{  }'') (Some 1) =
     Inr \<lparr>output = js ''{}\<newline>'', highlight = None\<rparr> \<and>
   (\<exists>raw e. 0 \<le> e \<and> e < int (length raw) \<and>
      (\<exists>res. formatJsonBestEffort raw (Some e) = Inr res \<and> highlight res = None))"
proof -
  have run: "formatJsonBestEffort (js ''{  }'') (Some 1) =
     Inr \<lparr>output = js ''{}\<newline>'', highlight = None\<rparr>"
    by code_simp
  have len: "(1::int) < int (length (js ''{  }''))" by (simp add: js_def)
  have "\<exists>res. formatJsonBestEffort (js ''{  }'') (Some 1) = Inr res \<and> highlight res = None"
    using run by simp
  with len have "\<exists>raw e. 0 \<le> e \<and> e < int (length raw) \<and>
      (\<exists>res. formatJsonBestEffort raw (Some e) = Inr res \<and> highlight res = None)"
    by (intro exI[of _ "js ''{  }''"] exI[of _ "1::int"]) simp
  with run len show ?thesis by simp
qed

section \<open>Properties of the navigation controller\<close>

lemma js_rem_wrap_low: "0 < n \<Longrightarrow> js_rem (js_rem (- 1) n + n) n = n - 1"
proof -
  assume n: "0 < n"
  show ?thesis
  proof (cases "n = 1")
    case True
    then show ?thesis by (simp add: js_rem_def)
  next
    case False
    with n have n1: "1 < n" by simp
    then have a: "js_rem (- 1) n = - 1" by (simp add: js_rem_def)
    have "(n - 1) mod n = n - 1" using n1 by (intro mod_pos_pos_trivial) auto
    then have "js_rem (n - 1) n = n - 1" using n1 by (simp add: js_rem_def del: minus_mod_self2 mod_diff_right_eq)
    with a show ?thesis by (simp add: algebra_simps)
  qed
qed

lemma js_rem_wrap_high: "0 < n \<Longrightarrow> js_rem (js_rem n n + n) n = 0"
  by (simp add: js_rem_def)

text \<open>
  Claim C8. For a match list that is not empty, of length \<open>N\<close>: requesting the index
  \<open>-1\<close> with the current index 0 (as \<open>gotoPrevMatch\<close> does) gives \<open>N - 1\<close>, and requesting
  \<open>N\<close> with the current index \<open>N - 1\<close> (as \<open>gotoNextMatch\<close> does) gives 0. For the empty
  list each navigation call leaves the active index as it is, and the effect on the
  length of the list has set it to \<open>-1\<close>.
\<close>

theorem navigation_wraparound:
  "(findMatches \<noteq> [] \<longrightarrow>
      gotoFindIndex findMatches (- 1) 0 = int (length findMatches) - 1 \<and>
      gotoPrevMatch findMatches 0 = int (length findMatches) - 1 \<and>
      gotoFindIndex findMatches (int (length findMatches)) (int (length findMatches) - 1) = 0 \<and>
      gotoNextMatch findMatches (int (length findMatches) - 1) = 0) \<and>
   gotoFindIndex [] k a = a \<and> gotoNextMatch [] a = a \<and> gotoPrevMatch [] a = a \<and>
   syncActiveFindIndex [] a = - 1"
proof -
  have "gotoFindIndex [] k a = a \<and> gotoNextMatch [] a = a \<and> gotoPrevMatch [] a = a \<and>
        syncActiveFindIndex [] a = - 1"
    by (simp add: gotoFindIndex_def gotoNextMatch_def gotoPrevMatch_def syncActiveFindIndex_def)
  moreover have "gotoFindIndex findMatches (- 1) 0 = int (length findMatches) - 1 \<and>
      gotoPrevMatch findMatches 0 = int (length findMatches) - 1 \<and>
      gotoFindIndex findMatches (int (length findMatches)) (int (length findMatches) - 1) = 0 \<and>
      gotoNextMatch findMatches (int (length findMatches) - 1) = 0" if "findMatches \<noteq> []"
  proof -
    from that have n: "0 < int (length findMatches)" by simp
    show ?thesis
      using that js_rem_wrap_low[OF n] js_rem_wrap_high[OF n]
      by (simp add: gotoFindIndex_def gotoNextMatch_def gotoPrevMatch_def Let_def)
  qed
  ultimately show ?thesis by blast
qed

theorem navigation_wraparound_witness:
  "[\<lparr>fm_start = 0, fm_end = 1\<rparr>, \<lparr>fm_start = 2, fm_end = 3\<rparr>, \<lparr>fm_start = 4, fm_end = 5\<rparr>] \<noteq> [] \<and>
   gotoFindIndex [\<lparr>fm_start = 0, fm_end = 1\<rparr>, \<lparr>fm_start = 2, fm_end = 3\<rparr>, \<lparr>fm_start = 4, fm_end = 5\<rparr>] (- 1) 0 = 2 \<and>
   gotoFindIndex [\<lparr>fm_start = 0, fm_end = 1\<rparr>, \<lparr>fm_start = 2, fm_end = 3\<rparr>, \<lparr>fm_start = 4, fm_end = 5\<rparr>] 3 2 = 0"
  using navigation_wraparound[of "[\<lparr>fm_start = 0, fm_end = 1\<rparr>, \<lparr>fm_start = 2, fm_end = 3\<rparr>, \<lparr>fm_start = 4, fm_end = 5\<rparr>]" 0 0]
  by simp

section \<open>Totality of the three components\<close>

text \<open>
  Claim C7. For every buffer (the empty one included), every options record, every list
  of ranges and every offset argument (absent, negative, 0, the length, or beyond), and
  every runtime: \<open>computeFindMatches\<close> returns (both scanning loops end, and the
  constructor's exception is caught), \<open>renderWithHighlights\<close> returns without raising,
  and \<open>formatJsonBestEffort\<close> returns without raising.
\<close>

theorem core_total:
  "(\<exists>r. computeFindMatches rt text opts = Some r) \<and>
   (\<exists>nodes. renderWithHighlights text hp fr act = Inr nodes) \<and>
   (\<exists>res. formatJsonBestEffort raw ep = Inr res)"
  using computeFindMatches_scan[of rt "text" opts] renderWithHighlights_returns[of "text" hp fr act]
    formatJsonBestEffort_returns[of raw ep]
  by blast

end
